theory Spec2Isabelle
  imports Complex_Main "HOL-Library.AList" "HOL-Library.Sublist"
begin

section \<open>Arbitrage detection over bookmaker odds (logic.py)\<close>

text \<open>
  The program fetches, for every sport of a provider's catalogue, the events with the
  odds quoted by several bookmakers, keeps per outcome the best price, sums the implied
  probabilities \<open>1 / price\<close> and yields the events whose sum lies strictly between
  \<open>0\<close> and \<open>1 - cutoff\<close>.

  Conventions of the embedding:
  \<^item> a JSON object is a record of the fields the program reads, each field optional
    (\<open>None\<close> is a missing key, on which Python's \<open>d[k]\<close> raises \<open>KeyError\<close>);
  \<^item> Python floats are idealised as \<^typ>\<open>real\<close>: comparison and addition are exact;
  \<^item> a Python \<open>dict\<close> built by the program is an association list in insertion order
    (an assignment to an existing key keeps the key's position);
  \<^item> an exception is a value of \<open>py_error\<close>; a generator is the list of the items it
    yields together with the exception that ended it, if any;
  \<^item> \<open>time.time()\<close> reads a clock: a function from the number of earlier readings to
    the value read, passed on with the readings already made dropped.
\<close>

subsection \<open>Data\<close>

record outcome =
  name :: "string option"
  price :: "real option"

record market =
  outcomes :: "outcome list option"

record bookmaker =
  title :: "string option"
  markets :: "market list option"

record event =
  commence_time :: "int option"
  status :: "string option"
  bookmakers :: "bookmaker list option"
  home_team :: "string option"
  away_team :: "string option"
  sport_key :: "string option"

text \<open>
  The body of a response, as \<open>response.json()\<close> returns it: the array of the sports
  (only the field \<open>key\<close> of a sport is read), the array of the events, or a JSON object
  that is neither, such as the provider's error object \<open>{"message": ...}\<close>, as the list of
  its keys with their values.
\<close>

datatype payload =
  Sports "string option list"
| Events "event list"
| Object "(string \<times> string) list"

record response =
  status_code :: int
  json :: payload

datatype py_error =
  AuthenticationException string response
| RateLimitException string response
| APIException string response
| KeyError string
| IndexError
| TypeError
| ZeroDivisionError

type_synonym best_odds = "(string \<times> (string \<times> real)) list"

record opportunity =
  match_name :: string
  match_start_time :: int
  hours_to_start :: real
  league :: string
  best_outcome_odds :: best_odds
  total_implied_odds :: real

type_synonym clock = "nat \<Rightarrow> real"

type_synonym 'a generator = "'a list \<times> py_error option"

subsection \<open>The clock\<close>

definition time_time :: "clock \<Rightarrow> real \<times> clock" where
  "time_time clk = (clk 0, \<lambda>n. clk (Suc n))"

subsection \<open>Best price per outcome\<close>

text \<open>
  The body of the inner loop (lines 79 to 82): the entry of an outcome is replaced when the
  outcome has none yet or when the new price is strictly greater than the stored one.
\<close>

definition record_outcome :: "string \<Rightarrow> best_odds \<Rightarrow> outcome \<Rightarrow> py_error + best_odds" where
  "record_outcome bookie_name best_odd_per_outcome oc =
     (case name oc of
        None \<Rightarrow> Inl (KeyError ''name'')
      | Some outcome_name \<Rightarrow>
          (case price oc of
             None \<Rightarrow> Inl (KeyError ''price'')
           | Some odd' \<Rightarrow>
               (case map_of best_odd_per_outcome outcome_name of
                  None \<Rightarrow>
                    Inr (AList.update outcome_name (bookie_name, odd') best_odd_per_outcome)
                | Some stored \<Rightarrow>
                    if odd' > snd stored
                    then Inr (AList.update outcome_name (bookie_name, odd') best_odd_per_outcome)
                    else Inr best_odd_per_outcome)))"

fun outcomes_loop :: "string \<Rightarrow> best_odds \<Rightarrow> outcome list \<Rightarrow> py_error + best_odds" where
  "outcomes_loop bookie_name best [] = Inr best"
| "outcomes_loop bookie_name best (oc # ocs) =
     (case record_outcome bookie_name best oc of
        Inl err \<Rightarrow> Inl err
      | Inr best' \<Rightarrow> outcomes_loop bookie_name best' ocs)"

text \<open>
  The header of the inner loop (lines 77 and 78): \<open>bookmaker["title"]\<close>, then
  \<open>bookmaker["markets"][0]["outcomes"]\<close>, each of which can raise.
\<close>

definition first_market_outcomes :: "bookmaker \<Rightarrow> py_error + (string \<times> outcome list)" where
  "first_market_outcomes bk =
     (case title bk of
        None \<Rightarrow> Inl (KeyError ''title'')
      | Some bookie_name \<Rightarrow>
          (case markets bk of
             None \<Rightarrow> Inl (KeyError ''markets'')
           | Some [] \<Rightarrow> Inl IndexError
           | Some (m # _) \<Rightarrow>
               (case outcomes m of
                  None \<Rightarrow> Inl (KeyError ''outcomes'')
                | Some ocs \<Rightarrow> Inr (bookie_name, ocs))))"

fun bookmakers_loop :: "best_odds \<Rightarrow> bookmaker list \<Rightarrow> py_error + best_odds" where
  "bookmakers_loop best [] = Inr best"
| "bookmakers_loop best (bk # bks) =
     (case first_market_outcomes bk of
        Inl err \<Rightarrow> Inl err
      | Inr (bookie_name, ocs) \<Rightarrow>
          (case outcomes_loop bookie_name best ocs of
             Inl err \<Rightarrow> Inl err
           | Inr best' \<Rightarrow> bookmakers_loop best' bks))"

text \<open>
  Line 84: \<open>sum(1/i[1] for i in best_odd_per_outcome.values())\<close>. The sum starts at \<open>0\<close> and
  adds from the left; a price \<open>0\<close> raises \<open>ZeroDivisionError\<close>.
\<close>

fun sum_implied :: "real \<Rightarrow> best_odds \<Rightarrow> py_error + real" where
  "sum_implied acc [] = Inr acc"
| "sum_implied acc (i # rest) =
     (if snd (snd i) = 0 then Inl ZeroDivisionError
      else sum_implied (acc + 1 / snd (snd i)) rest)"

subsection \<open>One event\<close>

definition lower_char :: "char \<Rightarrow> char" where
  "lower_char c =
     (let n = (of_char c :: nat) in if 65 \<le> n \<and> n \<le> 90 then char_of (n + 32) else c)"

text \<open>
  \<open>str.lower\<close> on the bytes of the string. Python lowers every cased code point; the
  comparison with \<open>"upcoming"\<close> and \<open>"pre-match"\<close> depends on the ASCII letters only, since no
  other code point lowers to one of the letters of these two words.
\<close>

definition lower :: "string \<Rightarrow> string" where
  "lower s = map lower_char s"

definition is_upcoming :: "event \<Rightarrow> bool" where
  "is_upcoming ev =
     (let st = lower (case status ev of None \<Rightarrow> [] | Some s \<Rightarrow> s)
      in commence_time ev \<noteq> None \<and> (st = ''upcoming'' \<or> st = ''pre-match''))"

text \<open>
  The body of the \<open>if\<close> of line 72 (lines 73 to 95) for an event that passed the test; the
  clock is read once, after the odds are summed.
\<close>

definition process_event :: "clock \<Rightarrow> event \<Rightarrow> (py_error + opportunity) \<times> clock" where
  "process_event clk ev =
     (case commence_time ev of
        None \<Rightarrow> (Inl (KeyError ''commence_time''), clk)
      | Some start_time \<Rightarrow>
     (case bookmakers ev of
        None \<Rightarrow> (Inl (KeyError ''bookmakers''), clk)
      | Some bks \<Rightarrow>
     (case bookmakers_loop [] bks of
        Inl err \<Rightarrow> (Inl err, clk)
      | Inr best_odd_per_outcome \<Rightarrow>
     (case sum_implied 0 best_odd_per_outcome of
        Inl err \<Rightarrow> (Inl err, clk)
      | Inr total_implied \<Rightarrow>
     (case home_team ev of
        None \<Rightarrow> (Inl (KeyError ''home_team''), clk)
      | Some home \<Rightarrow>
     (case away_team ev of
        None \<Rightarrow> (Inl (KeyError ''away_team''), clk)
      | Some away \<Rightarrow>
     (let (now, clk') = time_time clk in
     (case sport_key ev of
        None \<Rightarrow> (Inl (KeyError ''sport_key''), clk')
      | Some lg \<Rightarrow>
          (Inr \<lparr> match_name = home @ '' v. '' @ away,
                 match_start_time = start_time,
                 hours_to_start = (real_of_int start_time - now) / 3600,
                 league = lg,
                 best_outcome_odds = best_odd_per_outcome,
                 total_implied_odds = total_implied \<rparr>, clk')))))))))"

fun process_upcoming_events_data :: "clock \<Rightarrow> event list \<Rightarrow> opportunity generator \<times> clock" where
  "process_upcoming_events_data clk [] = (([], None), clk)"
| "process_upcoming_events_data clk (ev # events) =
     (if is_upcoming ev then
        (case process_event clk ev of
           (Inl err, clk') \<Rightarrow> (([], Some err), clk')
         | (Inr opp, clk') \<Rightarrow>
             (case process_upcoming_events_data clk' events of
                ((opps, stop), clk'') \<Rightarrow> ((opp # opps, stop), clk'')))
      else process_upcoming_events_data clk events)"

subsection \<open>The fetch boundary\<close>

datatype request =
  SportsRequest string
| OddsRequest string string string string

type_synonym network = "request \<Rightarrow> response"

text \<open>
  \<open>if not response\<close> tests \<open>response.ok\<close> of the HTTP library: false for a status from
  \<open>400\<close> to \<open>599\<close>.
\<close>

definition response_ok :: "response \<Rightarrow> bool" where
  "response_ok r = (\<not> (400 \<le> status_code r \<and> status_code r < 600))"

text \<open>The function always raises; its value is the exception raised.\<close>

definition handle_faulty_response :: "response \<Rightarrow> py_error" where
  "handle_faulty_response r =
     (if status_code r = 401 then
        AuthenticationException ''Failed to authenticate with the API. Is the API key valid?'' r
      else if status_code r = 429 then
        RateLimitException ''Encountered API rate limit.'' r
      else
        APIException ''Unknown issue arose while trying to access the API.'' r)"





text \<open>
  The list comprehension of line 63 over an array of events: the clock is read for every
  event that has a \<open>commence_time\<close>.
\<close>

fun future_events :: "clock \<Rightarrow> event list \<Rightarrow> event list \<times> clock" where
  "future_events clk [] = ([], clk)"
| "future_events clk (ev # evs) =
     (case commence_time ev of
        None \<Rightarrow> future_events clk evs
      | Some t \<Rightarrow>
          (let (now, clk') = time_time clk in
           (case future_events clk' evs of
              (kept, clk'') \<Rightarrow> (if real_of_int t > now then ev # kept else kept, clk''))))"

text \<open>
  The same comprehension over a JSON object iterates the keys: \<open>"commence_time" in key\<close>
  is the substring test, and \<open>key["commence_time"]\<close> raises \<open>TypeError\<close>.
\<close>

fun future_keys :: "string list \<Rightarrow> py_error + event list" where
  "future_keys [] = Inr []"
| "future_keys (k # ks) =
     (if sublist ''commence_time'' k then Inl TypeError else future_keys ks)"

definition get_upcoming_events_data ::
  "network \<Rightarrow> clock \<Rightarrow> string \<Rightarrow> string \<Rightarrow> string \<Rightarrow> string \<Rightarrow> (py_error + event list) \<times> clock" where
  "get_upcoming_events_data net clk key sport region odds_format =
     (let response = net (OddsRequest key sport region odds_format) in
      if \<not> response_ok response then (Inl (handle_faulty_response response), clk)
      else
        (case json response of
           Events evs \<Rightarrow> (case future_events clk evs of (kept, clk') \<Rightarrow> (Inr kept, clk'))
         | Sports items \<Rightarrow> (Inr [], clk)
         | Object kvs \<Rightarrow> (future_keys (map fst kvs), clk)))"

subsection \<open>The stream of opportunities\<close>

text \<open>The \<open>lambda\<close> of line 106: \<open>0 < x["total_implied_odds"] < 1-cutoff\<close>.\<close>

definition is_arbitrage :: "real \<Rightarrow> opportunity \<Rightarrow> bool" where
  "is_arbitrage cutoff x = (0 < total_implied_odds x \<and> total_implied_odds x < 1 - cutoff)"

text \<open>
  Line 104, \<open>"message" not in upcoming_events_data\<close>: membership in a list compares the
  string with every element, and a string is never equal to a dictionary.
\<close>

definition str_eq_dict :: "string \<Rightarrow> event \<Rightarrow> bool" where
  "str_eq_dict s ev = False"

definition str_in_events :: "string \<Rightarrow> event list \<Rightarrow> bool" where
  "str_in_events s evs = list_ex (str_eq_dict s) evs"

fun sports_loop ::
  "network \<Rightarrow> string \<Rightarrow> string \<Rightarrow> real \<Rightarrow> clock \<Rightarrow> string list \<Rightarrow> opportunity generator" where
  "sports_loop net key region cutoff clk [] = ([], None)"
| "sports_loop net key region cutoff clk (sport # sports) =
     (case get_upcoming_events_data net clk key sport region ''decimal'' of
        (Inl err, clk1) \<Rightarrow> ([], Some err)
      | (Inr upcoming_events_data, clk1) \<Rightarrow>
          if \<not> str_in_events ''message'' upcoming_events_data then
            (case process_upcoming_events_data clk1 upcoming_events_data of
               ((results, stop), clk2) \<Rightarrow>
                 (let arbitrage_opportunities = filter (is_arbitrage cutoff) results in
                  (case stop of
                     Some err \<Rightarrow> (arbitrage_opportunities, Some err)
                   | None \<Rightarrow>
                       (case sports_loop net key region cutoff clk2 sports of
                          (later, stop') \<Rightarrow> (arbitrage_opportunities @ later, stop')))))
          else sports_loop net key region cutoff clk1 sports)"


subsection \<open>Quotes, as the specification speaks of them\<close>

text \<open>
  A quote is a bookmaker's name, an outcome's name and a price. The quotes of an event are
  those of the first listed market of each bookmaker, in the order of the input. A
  bookmaker or an outcome on which the aggregation raises has no quote: the theorems below speak
  of events on which it does not raise.
\<close>

type_synonym quote = "string \<times> string \<times> real"

definition outcome_quote :: "string \<Rightarrow> outcome \<Rightarrow> quote option" where
  "outcome_quote bookie_name oc =
     (case name oc of
        None \<Rightarrow> None
      | Some n \<Rightarrow> (case price oc of None \<Rightarrow> None | Some p \<Rightarrow> Some (bookie_name, n, p)))"

definition bookmaker_quotes :: "bookmaker \<Rightarrow> quote list" where
  "bookmaker_quotes bk =
     (case first_market_outcomes bk of
        Inl err \<Rightarrow> []
      | Inr (bookie_name, ocs) \<Rightarrow> List.map_filter (outcome_quote bookie_name) ocs)"

definition all_quotes :: "bookmaker list \<Rightarrow> quote list" where
  "all_quotes bks = concat (map bookmaker_quotes bks)"

definition quotes_for :: "string \<Rightarrow> quote list \<Rightarrow> quote list" where
  "quotes_for n qs = filter (\<lambda>q. fst (snd q) = n) qs"

definition best_price :: "string \<Rightarrow> quote list \<Rightarrow> real" where
  "best_price n qs = Max (set (map (\<lambda>q. snd (snd q)) (quotes_for n qs)))"

text \<open>
  The best price of an outcome is the maximum over its quotes; \<open>keep_best\<close> is the update
  of line 82 on a quote, and \<open>keep_best_for\<close> what it does to the entry of one outcome.
\<close>

definition keep_best :: "best_odds \<Rightarrow> quote \<Rightarrow> best_odds" where
  "keep_best best q =
     (case map_of best (fst (snd q)) of
        None \<Rightarrow> AList.update (fst (snd q)) (fst q, snd (snd q)) best
      | Some stored \<Rightarrow>
          if snd (snd q) > snd stored
          then AList.update (fst (snd q)) (fst q, snd (snd q)) best
          else best)"

definition keep_best_for :: "string \<Rightarrow> (string \<times> real) option \<Rightarrow> quote \<Rightarrow> (string \<times> real) option" where
  "keep_best_for n s q =
     (if fst (snd q) = n then
        (case s of
           None \<Rightarrow> Some (fst q, snd (snd q))
         | Some stored \<Rightarrow> if snd (snd q) > snd stored then Some (fst q, snd (snd q)) else s)
      else s)"

text \<open>
  The bookmaker \<open>bk\<close>, named \<open>b\<close>, quotes the price \<open>p\<close> for the outcome \<open>n\<close> in its first
  listed market.
\<close>

definition quoted_by :: "bookmaker \<Rightarrow> string \<Rightarrow> string \<Rightarrow> real \<Rightarrow> bool" where
  "quoted_by bk b n p =
     (title bk = Some b \<and>
      (case markets bk of
         Some (m # ms) \<Rightarrow>
           (case outcomes m of
              Some ocs \<Rightarrow> list_ex (\<lambda>oc. name oc = Some n \<and> price oc = Some p) ocs
            | None \<Rightarrow> False)
       | _ \<Rightarrow> False))"

subsection \<open>Notions of the claims\<close>

text \<open>
  The data model of the specification has every price positive. \<open>prices_positive\<close> says so
  of the quotes the aggregation reads.
\<close>

definition prices_positive :: "event \<Rightarrow> bool" where
  "prices_positive ev =
     (case bookmakers ev of
        None \<Rightarrow> True
      | Some bks \<Rightarrow> list_all (\<lambda>q. 0 < snd (snd q)) (all_quotes bks))"

text \<open>The clock after \<open>k\<close> readings.\<close>

definition shift :: "nat \<Rightarrow> clock \<Rightarrow> clock" where
  "shift k clk = (\<lambda>n. clk (k + n))"

text \<open>
  A structural-access failure is a missing key or an index out of range. A bookmaker is
  malformed when it has no \<open>markets\<close>, an empty list of markets, or a first market without
  \<open>outcomes\<close>; an event is malformed when it has no \<open>bookmakers\<close> or a malformed bookmaker.
\<close>

definition structural_error :: "py_error \<Rightarrow> bool" where
  "structural_error err = (case err of KeyError k \<Rightarrow> True | IndexError \<Rightarrow> True | _ \<Rightarrow> False)"

definition malformed_bookmaker :: "bookmaker \<Rightarrow> bool" where
  "malformed_bookmaker bk =
     (case markets bk of
        None \<Rightarrow> True
      | Some [] \<Rightarrow> True
      | Some (m # ms) \<Rightarrow> outcomes m = None)"

definition malformed :: "event \<Rightarrow> bool" where
  "malformed ev =
     (case bookmakers ev of
        None \<Rightarrow> True
      | Some bks \<Rightarrow> list_ex malformed_bookmaker bks)"

text \<open>A record with the one field that depends on the clock cleared.\<close>

definition without_hours :: "opportunity \<Rightarrow> opportunity" where
  "without_hours r = r \<lparr> hours_to_start := 0 \<rparr>"


subsection \<open>The scenarios of the specification\<close>

definition bookmaker_a :: bookmaker where
  "bookmaker_a =
     \<lparr> title = Some ''A'',
       markets = Some [\<lparr> outcomes = Some [\<lparr> name = Some ''Home'', price = Some 2.10 \<rparr>,
                                          \<lparr> name = Some ''Away'', price = Some 1.90 \<rparr>] \<rparr>] \<rparr>"

definition bookmaker_b :: bookmaker where
  "bookmaker_b =
     \<lparr> title = Some ''B'',
       markets = Some [\<lparr> outcomes = Some [\<lparr> name = Some ''Home'', price = Some 2.05 \<rparr>,
                                          \<lparr> name = Some ''Away'', price = Some 2.00 \<rparr>] \<rparr>] \<rparr>"

definition bookmaker_c :: bookmaker where
  "bookmaker_c =
     \<lparr> title = Some ''C'',
       markets = Some [\<lparr> outcomes = Some [\<lparr> name = Some ''Home'', price = Some 2.10 \<rparr>,
                                          \<lparr> name = Some ''Draw'', price = Some 3.50 \<rparr>] \<rparr>] \<rparr>"

text \<open>Scenario A, and the same event with a third bookmaker that ties on \<open>Home\<close>.\<close>

definition scenario_a :: event where
  "scenario_a =
     \<lparr> commence_time = Some 7200, status = Some ''Upcoming'',
       bookmakers = Some [bookmaker_a, bookmaker_b],
       home_team = Some ''Lions'', away_team = Some ''Tigers'', sport_key = Some ''soccer'' \<rparr>"

definition scenario_a_record :: opportunity where
  "scenario_a_record =
     \<lparr> match_name = ''Lions v. Tigers'', match_start_time = 7200, hours_to_start = 2,
       league = ''soccer'',
       best_outcome_odds = [(''Home'', ''A'', 21 / 10), (''Away'', ''B'', 2)],
       total_implied_odds = 41 / 42 \<rparr>"

definition scenario_tie :: event where
  "scenario_tie = scenario_a \<lparr> bookmakers := Some [bookmaker_a, bookmaker_b, bookmaker_c] \<rparr>"

definition scenario_tie_record :: opportunity where
  "scenario_tie_record =
     \<lparr> match_name = ''Lions v. Tigers'', match_start_time = 7200, hours_to_start = 2,
       league = ''soccer'',
       best_outcome_odds = [(''Home'', ''A'', 21 / 10), (''Away'', ''B'', 2), (''Draw'', ''C'', 7 / 2)],
       total_implied_odds = 53 / 42 \<rparr>"

text \<open>Two clocks: one that always reads \<open>0\<close>, one that always reads an hour later.\<close>

definition epoch_clock :: clock where
  "epoch_clock n = 0"

definition hour_later_clock :: clock where
  "hour_later_clock n = 3600"

text \<open>Scenario A without any bookmaker, and with a bookmaker whose market has no outcomes.\<close>

definition no_bookmakers_event :: event where
  "no_bookmakers_event = scenario_a \<lparr> bookmakers := Some [] \<rparr>"

definition no_bookmakers_record :: opportunity where
  "no_bookmakers_record =
     \<lparr> match_name = ''Lions v. Tigers'', match_start_time = 7200, hours_to_start = 2,
       league = ''soccer'', best_outcome_odds = [], total_implied_odds = 0 \<rparr>"

definition missing_outcomes_event :: event where
  "missing_outcomes_event =
     scenario_a \<lparr> bookmakers :=
       Some [bookmaker_a, \<lparr> title = Some ''D'', markets = Some [\<lparr> outcomes = None \<rparr>] \<rparr>] \<rparr>"

text \<open>Scenario C: one bookmaker, three outcomes, a total of exactly \<open>0.95\<close>.\<close>

definition scenario_c :: event where
  "scenario_c =
     \<lparr> commence_time = Some 7200, status = Some ''pre-match'',
       bookmakers = Some
         [\<lparr> title = Some ''A'',
            markets = Some [\<lparr> outcomes = Some [\<lparr> name = Some ''Home'', price = Some 2 \<rparr>,
                                               \<lparr> name = Some ''Draw'', price = Some 4 \<rparr>,
                                               \<lparr> name = Some ''Away'', price = Some 5 \<rparr>] \<rparr>] \<rparr>],
       home_team = Some ''Bears'', away_team = Some ''Wolves'', sport_key = Some ''soccer'' \<rparr>"

definition scenario_c_record :: opportunity where
  "scenario_c_record =
     \<lparr> match_name = ''Bears v. Wolves'', match_start_time = 7200, hours_to_start = 2,
       league = ''soccer'',
       best_outcome_odds = [(''Home'', ''A'', 2), (''Draw'', ''A'', 4), (''Away'', ''A'', 5)],
       total_implied_odds = 95 / 100 \<rparr>"

text \<open>
  A network: the catalogue has two sports; \<open>soccer\<close> has two events, \<open>tennis\<close> answers with
  the provider's error object under a success status, \<open>cricket\<close> with an object that also
  has a key \<open>commence_time\<close>, \<open>golf\<close> with status \<open>429\<close> and any other sport with \<open>404\<close>; the
  key \<open>invalid\<close> is refused with \<open>401\<close>.
\<close>

definition ok_response :: "payload \<Rightarrow> response" where
  "ok_response body = \<lparr> status_code = 200, json = body \<rparr>"

definition error_response :: "int \<Rightarrow> string \<Rightarrow> response" where
  "error_response code msg = \<lparr> status_code = code, json = Object [(''message'', msg)] \<rparr>"

definition demo_network :: network where
  "demo_network req =
     (case req of
        SportsRequest key \<Rightarrow>
          if key = ''invalid'' then error_response 401 ''API key is not valid''
          else ok_response (Sports [Some ''soccer'', Some ''tennis''])
      | OddsRequest key sport region odds_format \<Rightarrow>
          if sport = ''soccer'' then ok_response (Events [scenario_a, scenario_c])
          else if sport = ''tennis'' then ok_response (Object [(''message'', ''No events'')])
          else if sport = ''cricket'' then
            ok_response (Object [(''message'', ''No events''), (''commence_time'', ''none'')])
          else if sport = ''golf'' then error_response 429 ''Usage quota has been reached''
          else error_response 404 ''Unknown sport'')"

text \<open>An event outside the data model: one of its prices is negative.\<close>

definition negative_price_event :: event where
  "negative_price_event =
     scenario_a \<lparr> bookmakers :=
       Some [\<lparr> title = Some ''A'',
               markets = Some [\<lparr> outcomes = Some [\<lparr> name = Some ''Home'', price = Some 2 \<rparr>,
                                                  \<lparr> name = Some ''Away'', price = Some (- 1) \<rparr>] \<rparr>] \<rparr>] \<rparr>"

section \<open>Properties\<close>

subsection \<open>One step of the loop over the sports\<close>

text \<open>The test of line 104 never fails, so a step of the loop is the fetch, the generator
  and the filter.\<close>

lemma str_in_events_False: "\<not> str_in_events s evs"
  by (simp add: str_in_events_def str_eq_dict_def list_ex_iff)

lemma sports_loop_Cons:
  "sports_loop net key region cutoff clk (sport # sports) =
     (case get_upcoming_events_data net clk key sport region ''decimal'' of
        (Inl err, clk1) \<Rightarrow> ([], Some err)
      | (Inr evs, clk1) \<Rightarrow>
          (case process_upcoming_events_data clk1 evs of
             ((results, stop), clk2) \<Rightarrow>
               (case stop of
                  Some err \<Rightarrow> (filter (is_arbitrage cutoff) results, Some err)
                | None \<Rightarrow>
                    (case sports_loop net key region cutoff clk2 sports of
                       (later, stop') \<Rightarrow> (filter (is_arbitrage cutoff) results @ later, stop')))))"
  by (simp add: str_in_events_False Let_def split: prod.splits sum.splits option.splits)

subsection \<open>The aggregation as a fold over the quotes\<close>

lemma record_outcome_keep_best:
  "record_outcome b best oc = Inr best' \<Longrightarrow>
     \<exists>q. outcome_quote b oc = Some q \<and> best' = keep_best best q"
  by (auto simp: record_outcome_def outcome_quote_def keep_best_def
           split: option.splits if_splits)

lemma outcomes_loop_foldl:
  "outcomes_loop b best ocs = Inr best' \<Longrightarrow>
     best' = foldl keep_best best (List.map_filter (outcome_quote b) ocs)"
proof (induction ocs arbitrary: best)
  case Nil
  then show ?case by simp
next
  case (Cons oc ocs)
  then obtain mid where m: "record_outcome b best oc = Inr mid"
    and r: "outcomes_loop b mid ocs = Inr best'"
    by (auto split: sum.splits)
  from record_outcome_keep_best [OF m] obtain q
    where q: "outcome_quote b oc = Some q" "mid = keep_best best q" by blast
  from Cons.IH [OF r] q show ?case by simp
qed

lemma bookmakers_loop_foldl:
  "bookmakers_loop best bks = Inr best' \<Longrightarrow> best' = foldl keep_best best (all_quotes bks)"
proof (induction bks arbitrary: best)
  case Nil
  then show ?case by (simp add: all_quotes_def)
next
  case (Cons bk bks)
  then obtain b ocs mid where f: "first_market_outcomes bk = Inr (b, ocs)"
    and o: "outcomes_loop b best ocs = Inr mid"
    and r: "bookmakers_loop mid bks = Inr best'"
    by (auto split: sum.splits prod.splits)
  from outcomes_loop_foldl [OF o] f
  have "mid = foldl keep_best best (bookmaker_quotes bk)"
    by (simp add: bookmaker_quotes_def)
  with Cons.IH [OF r] show ?case
    by (simp add: all_quotes_def)
qed

lemma map_of_keep_best:
  "map_of (keep_best best q) n = keep_best_for n (map_of best n) q"
  by (auto simp: keep_best_def keep_best_for_def update_conv' split: option.splits)

lemma map_of_foldl_keep_best:
  "map_of (foldl keep_best best qs) n = foldl (keep_best_for n) (map_of best n) qs"
  by (induction qs arbitrary: best) (simp_all add: map_of_keep_best)

lemma keys_keep_best:
  "fst ` set (keep_best best q) = insert (fst (snd q)) (fst ` set best)"
  by (auto simp: keep_best_def dom_update split: option.splits dest: map_of_SomeD
      intro: rev_image_eqI)

lemma keys_foldl_keep_best:
  "fst ` set (foldl keep_best best qs) = fst ` set best \<union> (\<lambda>q. fst (snd q)) ` set qs"
  by (induction qs arbitrary: best) (auto simp: keys_keep_best)

lemma distinct_keep_best:
  "distinct (map fst best) \<Longrightarrow> distinct (map fst (keep_best best q))"
  by (simp add: keep_best_def distinct_update split: option.splits)

lemma distinct_foldl_keep_best:
  "distinct (map fst best) \<Longrightarrow> distinct (map fst (foldl keep_best best qs))"
  by (induction qs arbitrary: best) (simp_all add: distinct_keep_best)

lemma find_app:
  "find P (xs @ ys) = (case find P xs of None \<Rightarrow> find P ys | Some x \<Rightarrow> Some x)"
  by (induction xs) simp_all

lemma keep_best_for_none:
  "quotes_for n qs = [] \<Longrightarrow> foldl (keep_best_for n) s qs = s"
  by (induction qs arbitrary: s) (auto simp: quotes_for_def keep_best_for_def split: if_splits)

lemma keep_best_for_max:
  "quotes_for n qs \<noteq> [] \<Longrightarrow>
     \<exists>b. foldl (keep_best_for n) None qs = Some (b, best_price n qs)
        \<and> find (\<lambda>q. snd (snd q) = best_price n qs) (quotes_for n qs)
            = Some (b, n, best_price n qs)"
proof (induction qs rule: rev_induct)
  case Nil
  then show ?case by (simp add: quotes_for_def)
next
  case (snoc q qs)
  have step: "foldl (keep_best_for n) None (qs @ [q])
                = keep_best_for n (foldl (keep_best_for n) None qs) q"
    by simp
  show ?case
  proof (cases "fst (snd q) = n")
    case False
    then have same: "quotes_for n (qs @ [q]) = quotes_for n qs"
      by (simp add: quotes_for_def)
    have keep: "keep_best_for n (foldl (keep_best_for n) None qs) q
                  = foldl (keep_best_for n) None qs"
      using False by (simp add: keep_best_for_def)
    from snoc.prems same have "quotes_for n qs \<noteq> []" by simp
    from snoc.IH [OF this] show ?thesis
      unfolding step keep by (simp add: best_price_def same)
  next
    case True
    obtain b' p' where q: "q = (b', n, p')"
      using True by (cases q) auto
    have app: "quotes_for n (qs @ [(b', n, p')]) = quotes_for n qs @ [(b', n, p')]"
      by (simp add: quotes_for_def)
    show ?thesis
    proof (cases "quotes_for n qs = []")
      case True
      then have "foldl (keep_best_for n) None qs = None"
        by (rule keep_best_for_none)
      then have "foldl (keep_best_for n) None (qs @ [q]) = Some (b', p')"
        unfolding step by (simp add: keep_best_for_def q)
      moreover have "best_price n (qs @ [q]) = p'"
        by (simp add: best_price_def app True q)
      ultimately show ?thesis
        by (simp add: app True q)
    next
      case False
      from snoc.IH [OF False] obtain b where
        st: "foldl (keep_best_for n) None qs = Some (b, best_price n qs)" and
        fd: "find (\<lambda>q. snd (snd q) = best_price n qs) (quotes_for n qs)
               = Some (b, n, best_price n qs)"
        by blast
      let ?S = "set (map (\<lambda>q. snd (snd q)) (quotes_for n qs))"
      have fin: "finite ?S" "?S \<noteq> {}" using False by auto
      have bp: "best_price n (qs @ [q]) = max p' (best_price n qs)"
        using fin by (simp add: best_price_def app q del: set_map)
      have le: "\<And>x. x \<in> set (quotes_for n qs) \<Longrightarrow> snd (snd x) \<le> best_price n qs"
        using fin by (auto simp: best_price_def)
      show ?thesis
      proof (cases "p' > best_price n qs")
        case True
        then have nf: "find (\<lambda>x. snd (snd x) = p') (quotes_for n qs) = None"
          using le by (fastforce simp: find_None_iff)
        have "foldl (keep_best_for n) None (qs @ [q]) = Some (b', p')"
          unfolding step st using True by (simp add: keep_best_for_def q)
        moreover have "best_price n (qs @ [q]) = p'"
          using True by (simp add: bp max_def)
        ultimately show ?thesis
          using nf by (simp add: app q find_app)
      next
        case False
        have "foldl (keep_best_for n) None (qs @ [q]) = Some (b, best_price n qs)"
          unfolding step st using False by (simp add: keep_best_for_def q)
        moreover have "best_price n (qs @ [q]) = best_price n qs"
          using False by (simp add: bp max_def)
        ultimately show ?thesis
          using fd by (simp add: app q find_app)
      qed
    qed
  qed
qed


lemma process_event_InrD:
  assumes "fst (process_event clk ev) = Inr r"
  shows "\<exists>start bks home away lg.
           commence_time ev = Some start \<and> bookmakers ev = Some bks
         \<and> bookmakers_loop [] bks = Inr (best_outcome_odds r)
         \<and> sum_implied 0 (best_outcome_odds r) = Inr (total_implied_odds r)
         \<and> home_team ev = Some home \<and> away_team ev = Some away \<and> sport_key ev = Some lg
         \<and> match_name r = home @ '' v. '' @ away
         \<and> match_start_time r = start
         \<and> hours_to_start r = (real_of_int start - clk 0) / 3600
         \<and> league r = lg
         \<and> snd (process_event clk ev) = (\<lambda>n. clk (Suc n))"
  using assms
  by (auto simp: process_event_def time_time_def split: option.splits sum.splits)

lemma set_update_subset: "set (AList.update k v al) \<subseteq> insert (k, v) (set al)"
  by (induction al) auto

lemma set_keep_best:
  "set (keep_best best q) \<subseteq> insert (fst (snd q), fst q, snd (snd q)) (set best)"
  using set_update_subset [of "fst (snd q)" "(fst q, snd (snd q))" best]
  by (auto simp: keep_best_def split: option.splits)

lemma set_foldl_keep_best:
  "set (foldl keep_best best qs) \<subseteq> set best \<union> (\<lambda>q. (fst (snd q), fst q, snd (snd q))) ` set qs"
proof (induction qs arbitrary: best)
  case Nil
  then show ?case by simp
next
  case (Cons q qs)
  from Cons.IH [of "keep_best best q"] set_keep_best [of best q]
  show ?case by auto
qed

lemma bookmaker_quotes_quoted_by:
  "(b, n, p) \<in> set (bookmaker_quotes bk) \<Longrightarrow> quoted_by bk b n p"
  by (auto simp: bookmaker_quotes_def first_market_outcomes_def quoted_by_def
        outcome_quote_def List.map_filter_def list_ex_iff
      split: sum.splits option.splits list.splits)

lemma all_quotes_quoted_by:
  "(b, n, p) \<in> set (all_quotes bks) \<Longrightarrow> \<exists>bk\<in>set bks. quoted_by bk b n p"
  by (auto simp: all_quotes_def dest: bookmaker_quotes_quoted_by)

lemma quoted_by_bookmaker_quotes:
  "quoted_by bk b n p \<Longrightarrow> (b, n, p) \<in> set (bookmaker_quotes bk)"
proof -
  assume q: "quoted_by bk b n p"
  then obtain m ms ocs oc where
    t: "title bk = Some b" and mk: "markets bk = Some (m # ms)" and
    o: "outcomes m = Some ocs" and oc: "oc \<in> set ocs" "name oc = Some n" "price oc = Some p"
    by (auto simp: quoted_by_def list_ex_iff split: option.splits list.splits)
  from t mk o have f: "first_market_outcomes bk = Inr (b, ocs)"
    by (simp add: first_market_outcomes_def)
  from oc have "outcome_quote b oc = Some (b, n, p)"
    by (simp add: outcome_quote_def)
  with oc(1) have "(b, n, p) \<in> set (List.map_filter (outcome_quote b) ocs)"
    by (force simp: List.map_filter_def)
  with f show ?thesis
    by (simp add: bookmaker_quotes_def)
qed

lemma all_quotes_iff_quoted_by:
  "(b, n, p) \<in> set (all_quotes bks) \<longleftrightarrow> (\<exists>bk\<in>set bks. quoted_by bk b n p)"
  using all_quotes_quoted_by [of b n p bks] quoted_by_bookmaker_quotes [of _ b n p]
  by (auto simp: all_quotes_def)

lemma best_entries_quoted:
  assumes "bookmakers_loop [] bks = Inr best" and "(n, b, p) \<in> set best"
  shows "(b, n, p) \<in> set (all_quotes bks)"
proof -
  from bookmakers_loop_foldl [OF assms(1)]
  have "best = foldl keep_best [] (all_quotes bks)" .
  with set_foldl_keep_best [of "[]" "all_quotes bks"] assms(2)
  show ?thesis by auto
qed

lemma yielded_from_event:
  "r \<in> set (fst (fst (process_upcoming_events_data clk evs))) \<Longrightarrow>
     \<exists>ev\<in>set evs. \<exists>clk'. is_upcoming ev \<and> fst (process_event clk' ev) = Inr r"
proof (induction evs arbitrary: clk)
  case Nil
  then show ?case by simp
next
  case (Cons ev evs)
  show ?case
  proof (cases "is_upcoming ev")
    case False
    with Cons show ?thesis by auto
  next
    case True
    show ?thesis
    proof (cases "fst (process_event clk ev)")
      case (Inl err)
      with True Cons.prems show ?thesis
        by (cases "process_event clk ev") auto
    next
      case (Inr opp)
      obtain clk' where pe: "process_event clk ev = (Inr opp, clk')"
        using Inr by (cases "process_event clk ev") auto
      obtain opps stop clk'' where
        rest: "process_upcoming_events_data clk' evs = ((opps, stop), clk'')"
        by (metis prod.exhaust)
      from Cons.prems True pe rest have "r = opp \<or> r \<in> set opps" by auto
      then show ?thesis
      proof
        assume "r = opp"
        with True Inr show ?thesis by auto
      next
        assume "r \<in> set opps"
        with rest have "r \<in> set (fst (fst (process_upcoming_events_data clk' evs)))" by simp
        from Cons.IH [OF this] show ?thesis by auto
      qed
    qed
  qed
qed

subsection \<open>Best price per outcome\<close>

text \<open>
  Claim C2. For every event on which \<open>process_upcoming_events_data\<close> yields a record, the
  keys of \<open>best_outcome_odds\<close> are exactly the outcome names quoted by some bookmaker in its
  first market, each key occurs once, and the entry of an outcome holds the maximum price
  over all its quotes together with the bookmaker of the first quote, in input order, that
  has this price (a later bookmaker with an equal price does not replace it).
\<close>

theorem best_odds_maximal:
  assumes "fst (process_event clk ev) = Inr r"
  shows "\<exists>bks. bookmakers ev = Some bks
       \<and> (\<forall>b n p. (b, n, p) \<in> set (all_quotes bks) \<longleftrightarrow> (\<exists>bk\<in>set bks. quoted_by bk b n p))
       \<and> set (map fst (best_outcome_odds r)) = set (map (\<lambda>q. fst (snd q)) (all_quotes bks))
       \<and> distinct (map fst (best_outcome_odds r))
       \<and> (\<forall>n\<in>set (map (\<lambda>q. fst (snd q)) (all_quotes bks)).
            \<exists>b. map_of (best_outcome_odds r) n = Some (b, best_price n (all_quotes bks))
               \<and> find (\<lambda>q. snd (snd q) = best_price n (all_quotes bks))
                    (quotes_for n (all_quotes bks))
                  = Some (b, n, best_price n (all_quotes bks)))"
proof -
  from process_event_InrD [OF assms] obtain bks
    where bks: "bookmakers ev = Some bks" "bookmakers_loop [] bks = Inr (best_outcome_odds r)"
    by blast
  let ?qs = "all_quotes bks"
  have eq: "best_outcome_odds r = foldl keep_best [] ?qs"
    using bookmakers_loop_foldl [OF bks(2)] .
  have quotes: "\<forall>b n p. (b, n, p) \<in> set ?qs \<longleftrightarrow> (\<exists>bk\<in>set bks. quoted_by bk b n p)"
    by (simp add: all_quotes_iff_quoted_by)
  have keys: "set (map fst (best_outcome_odds r)) = set (map (\<lambda>q. fst (snd q)) ?qs)"
    using keys_foldl_keep_best [of "[]" ?qs] by (simp add: eq)
  have dist: "distinct (map fst (best_outcome_odds r))"
    unfolding eq by (rule distinct_foldl_keep_best) simp
  have best: "\<exists>b. map_of (best_outcome_odds r) n = Some (b, best_price n ?qs)
               \<and> find (\<lambda>q. snd (snd q) = best_price n ?qs) (quotes_for n ?qs)
                  = Some (b, n, best_price n ?qs)"
    if "n \<in> set (map (\<lambda>q. fst (snd q)) ?qs)" for n
  proof -
    from that have "quotes_for n ?qs \<noteq> []"
      by (auto simp: quotes_for_def filter_empty_conv)
    from keep_best_for_max [OF this] show ?thesis
      by (simp add: eq map_of_foldl_keep_best)
  qed
  from bks(1) quotes keys dist best show ?thesis by blast
qed

theorem best_odds_maximal_witness:
  "fst (process_event (\<lambda>_. 0) scenario_tie) = Inr scenario_tie_record
   \<and> bookmakers scenario_tie = Some [bookmaker_a, bookmaker_b, bookmaker_c]
   \<and> all_quotes [bookmaker_a, bookmaker_b, bookmaker_c]
       = [(''A'', ''Home'', 21 / 10), (''A'', ''Away'', 19 / 10),
          (''B'', ''Home'', 205 / 100), (''B'', ''Away'', 2),
          (''C'', ''Home'', 21 / 10), (''C'', ''Draw'', 7 / 2)]
   \<and> best_price ''Home'' (all_quotes [bookmaker_a, bookmaker_b, bookmaker_c]) = 21 / 10
   \<and> map_of (best_outcome_odds scenario_tie_record) ''Home'' = Some (''A'', 21 / 10)"
proof -
  let ?qs = "all_quotes [bookmaker_a, bookmaker_b, bookmaker_c]"
  have h: "fst (process_event (\<lambda>_. 0) scenario_tie) = Inr scenario_tie_record"
    by code_simp
  have b: "bookmakers scenario_tie = Some [bookmaker_a, bookmaker_b, bookmaker_c]"
    by code_simp
  have q: "?qs = [(''A'', ''Home'', 21 / 10), (''A'', ''Away'', 19 / 10),
                  (''B'', ''Home'', 205 / 100), (''B'', ''Away'', 2),
                  (''C'', ''Home'', 21 / 10), (''C'', ''Draw'', 7 / 2)]"
    by code_simp
  have m: "best_price ''Home'' ?qs = 21 / 10"
    by code_simp
  have f: "find (\<lambda>q. snd (snd q) = best_price ''Home'' ?qs) (quotes_for ''Home'' ?qs)
             = Some (''A'', ''Home'', 21 / 10)"
    by code_simp
  have n: "''Home'' \<in> set (map (\<lambda>q. fst (snd q)) ?qs)"
    by code_simp
  from best_odds_maximal [OF h] b
  have "\<forall>n\<in>set (map (\<lambda>q. fst (snd q)) ?qs).
          \<exists>b. map_of (best_outcome_odds scenario_tie_record) n = Some (b, best_price n ?qs)
             \<and> find (\<lambda>q. snd (snd q) = best_price n ?qs) (quotes_for n ?qs)
                = Some (b, n, best_price n ?qs)"
    by auto
  with n obtain bk where
    e: "map_of (best_outcome_odds scenario_tie_record) ''Home''
          = Some (bk, best_price ''Home'' ?qs)" and
    g: "find (\<lambda>q. snd (snd q) = best_price ''Home'' ?qs) (quotes_for ''Home'' ?qs)
          = Some (bk, ''Home'', best_price ''Home'' ?qs)"
    by blast
  from f g have "bk = ''A''"
    by (simp only: option.inject prod.inject)
  with e m have "map_of (best_outcome_odds scenario_tie_record) ''Home'' = Some (''A'', 21 / 10)"
    by (simp only:)
  with h b q m show ?thesis by (simp only: simp_thms)
qed

text \<open>
  Claim C10. Every entry of \<open>best_outcome_odds\<close> of a yielded record is a quote of the event
  the record was made from: the bookmaker named in the entry quotes exactly the entry's
  price for the entry's outcome in its first listed market.
\<close>

theorem best_odds_entries_consistent:
  assumes "r \<in> set (fst (fst (process_upcoming_events_data clk evs)))"
  shows "\<exists>ev\<in>set evs. \<exists>clk' bks.
           is_upcoming ev \<and> fst (process_event clk' ev) = Inr r \<and> bookmakers ev = Some bks
         \<and> (\<forall>n b p. (n, b, p) \<in> set (best_outcome_odds r)
               \<longrightarrow> (\<exists>bk\<in>set bks. quoted_by bk b n p))"
proof -
  from yielded_from_event [OF assms] obtain ev clk'
    where ev: "ev \<in> set evs" "is_upcoming ev" "fst (process_event clk' ev) = Inr r"
    by blast
  from process_event_InrD [OF ev(3)] obtain bks
    where bks: "bookmakers ev = Some bks" "bookmakers_loop [] bks = Inr (best_outcome_odds r)"
    by blast
  have "\<forall>n b p. (n, b, p) \<in> set (best_outcome_odds r) \<longrightarrow> (\<exists>bk\<in>set bks. quoted_by bk b n p)"
    using best_entries_quoted [OF bks(2)] all_quotes_quoted_by by blast
  with ev bks(1) show ?thesis by blast
qed


theorem best_odds_entries_consistent_witness:
  "scenario_tie_record \<in> set (fst (fst (process_upcoming_events_data (\<lambda>_. 0) [scenario_tie])))
   \<and> (\<exists>ev\<in>set [scenario_tie]. \<exists>clk' bks.
           is_upcoming ev \<and> fst (process_event clk' ev) = Inr scenario_tie_record
         \<and> bookmakers ev = Some bks
         \<and> (\<forall>n b p. (n, b, p) \<in> set (best_outcome_odds scenario_tie_record)
               \<longrightarrow> (\<exists>bk\<in>set bks. quoted_by bk b n p)))"
proof -
  have h: "scenario_tie_record
             \<in> set (fst (fst (process_upcoming_events_data (\<lambda>_. 0) [scenario_tie])))"
    by code_simp
  from best_odds_entries_consistent [OF h] h show ?thesis by blast
qed

subsection \<open>The total implied probability\<close>





text \<open>
  The hypothesis on the prices is needed: the program does not check them, and with a
  negative price, which the data model excludes, the sum can be negative although an
  outcome has a positive price.
\<close>

lemma negative_price_total:
  "\<not> prices_positive negative_price_event
   \<and> map best_outcome_odds (fst (fst (process_upcoming_events_data epoch_clock [negative_price_event])))
       = [[(''Home'', ''A'', 2), (''Away'', ''A'', - 1)]]
   \<and> map total_implied_odds (fst (fst (process_upcoming_events_data epoch_clock [negative_price_event])))
       = [- 1 / 2]"
  by code_simp

subsection \<open>The filter on status and start time\<close>

lemma process_filter:
  "process_upcoming_events_data clk evs
     = process_upcoming_events_data clk (filter is_upcoming evs)"
  by (induction evs arbitrary: clk) (auto split: prod.splits sum.splits)

lemma process_event_Inr_clock:
  "process_event clk ev = (Inr r, clk') \<Longrightarrow> clk' = shift 1 clk"
  using process_event_InrD [of clk ev r] by (auto simp: shift_def)

lemma shift_shift: "shift i (shift k clk) = shift (k + i) clk"
  by (simp add: shift_def add.assoc)

lemma shift_0: "shift 0 clk = clk"
  by (simp add: shift_def)

lemma process_passing:
  assumes "\<forall>ev\<in>set ps. is_upcoming ev"
      and "process_upcoming_events_data clk ps = ((ys, stop), clk')"
  shows "length ys \<le> length ps
       \<and> (\<forall>i<length ys. fst (process_event (shift i clk) (ps ! i)) = Inr (ys ! i))
       \<and> (stop = None \<longrightarrow> length ys = length ps)
       \<and> (\<forall>err. stop = Some err \<longrightarrow> length ys < length ps
             \<and> fst (process_event (shift (length ys) clk) (ps ! length ys)) = Inl err)"
  using assms
proof (induction ps arbitrary: clk ys stop clk')
  case Nil
  then show ?case by simp
next
  case (Cons ev ps)
  have up: "is_upcoming ev" and rest: "\<forall>ev\<in>set ps. is_upcoming ev"
    using Cons.prems(1) by auto
  show ?case
  proof (cases "fst (process_event clk ev)")
    case (Inl err)
    then obtain c where "process_event clk ev = (Inl err, c)"
      by (cases "process_event clk ev") auto
    with Cons.prems(2) up have "ys = []" "stop = Some err" by auto
    with Inl show ?thesis by (simp add: shift_0)
  next
    case (Inr opp)
    then obtain c where pe: "process_event clk ev = (Inr opp, c)"
      by (cases "process_event clk ev") auto
    then have c: "c = shift 1 clk" by (rule process_event_Inr_clock)
    obtain opps st c2 where
      r: "process_upcoming_events_data c ps = ((opps, st), c2)"
      by (metis prod.exhaust)
    from Cons.prems(2) up pe r have ys: "ys = opp # opps" and st: "stop = st" by auto
    note IH = Cons.IH [OF rest r]
    have a: "length ys \<le> length (ev # ps)" using IH ys by simp
    have b: "fst (process_event (shift i clk) ((ev # ps) ! i)) = Inr (ys ! i)"
      if "i < length ys" for i
    proof (cases i)
      case 0
      with Inr ys show ?thesis by (simp add: shift_0)
    next
      case (Suc j)
      with that ys have "j < length opps" by simp
      with IH have "fst (process_event (shift j c) (ps ! j)) = Inr (opps ! j)" by blast
      with Suc ys c show ?thesis by (simp add: shift_shift)
    qed
    have d: "stop = None \<longrightarrow> length ys = length (ev # ps)"
      using IH ys st by simp
    have e: "length ys < length (ev # ps)
           \<and> fst (process_event (shift (length ys) clk) ((ev # ps) ! length ys)) = Inl err"
      if "stop = Some err" for err
    proof -
      from that st IH have "length opps < length ps"
        and "fst (process_event (shift (length opps) c) (ps ! length opps)) = Inl err"
        by auto
      with ys c show ?thesis by (simp add: shift_shift)
    qed
    from a b d e show ?thesis by blast
  qed
qed

text \<open>
  Claim C4. \<open>process_upcoming_events_data\<close> behaves on a list of events as on the sublist,
  in the same order, of the events that have a \<open>commence_time\<close> and whose \<open>status\<close>,
  lower-cased, is \<open>upcoming\<close> or \<open>pre-match\<close>: the other events are dropped, and dropping
  raises nothing. The records yielded are made one from each kept event, in the order of
  the input, and when nothing is raised there is one record for every kept event.
\<close>

theorem normalizer_keeps_upcoming:
  assumes "process_upcoming_events_data clk evs = ((ys, stop), clk')"
  shows "process_upcoming_events_data clk (filter is_upcoming evs) = ((ys, stop), clk')
       \<and> (\<forall>ev. is_upcoming ev \<longleftrightarrow>
             commence_time ev \<noteq> None
           \<and> (\<exists>s. status ev = Some s \<and> (lower s = ''upcoming'' \<or> lower s = ''pre-match'')))
       \<and> (filter is_upcoming evs = [] \<longrightarrow> ys = [] \<and> stop = None)
       \<and> length ys \<le> length (filter is_upcoming evs)
       \<and> (\<forall>i<length ys.
             fst (process_event (shift i clk) (filter is_upcoming evs ! i)) = Inr (ys ! i))
       \<and> (stop = None \<longrightarrow> length ys = length (filter is_upcoming evs))"
proof -
  have f: "process_upcoming_events_data clk (filter is_upcoming evs) = ((ys, stop), clk')"
    using assms process_filter [of clk evs] by simp
  have d: "is_upcoming ev \<longleftrightarrow>
             commence_time ev \<noteq> None
           \<and> (\<exists>s. status ev = Some s \<and> (lower s = ''upcoming'' \<or> lower s = ''pre-match''))"
    for ev
    by (cases "status ev") (auto simp: is_upcoming_def Let_def lower_def)
  have e: "filter is_upcoming evs = [] \<longrightarrow> ys = [] \<and> stop = None"
    using f by auto
  have "\<forall>ev\<in>set (filter is_upcoming evs). is_upcoming ev" by simp
  from process_passing [OF this f] f d e show ?thesis by blast
qed

theorem normalizer_keeps_upcoming_witness:
  "fst (process_upcoming_events_data epoch_clock
       [scenario_a \<lparr> status := Some ''finished'' \<rparr>, scenario_a, scenario_a \<lparr> status := None \<rparr>,
        scenario_a \<lparr> commence_time := None \<rparr>, scenario_tie \<lparr> status := Some ''PRE-Match'' \<rparr>])
     = ([scenario_a_record, scenario_tie_record], None)
   \<and> filter is_upcoming
       [scenario_a \<lparr> status := Some ''finished'' \<rparr>, scenario_a, scenario_a \<lparr> status := None \<rparr>,
        scenario_a \<lparr> commence_time := None \<rparr>, scenario_tie \<lparr> status := Some ''PRE-Match'' \<rparr>]
     = [scenario_a, scenario_tie \<lparr> status := Some ''PRE-Match'' \<rparr>]
   \<and> fst (process_upcoming_events_data epoch_clock
       [scenario_a, scenario_tie \<lparr> status := Some ''PRE-Match'' \<rparr>])
     = ([scenario_a_record, scenario_tie_record], None)"
proof -
  let ?evs = "[scenario_a \<lparr> status := Some ''finished'' \<rparr>, scenario_a,
               scenario_a \<lparr> status := None \<rparr>, scenario_a \<lparr> commence_time := None \<rparr>,
               scenario_tie \<lparr> status := Some ''PRE-Match'' \<rparr>]"
  let ?p = "process_upcoming_events_data epoch_clock ?evs"
  have run: "?p = ((fst (fst ?p), snd (fst ?p)), snd ?p)"
    by simp
  have fl: "filter is_upcoming ?evs = [scenario_a, scenario_tie \<lparr> status := Some ''PRE-Match'' \<rparr>]"
    by code_simp
  have out: "fst ?p = ([scenario_a_record, scenario_tie_record], None)"
    by code_simp
  from normalizer_keeps_upcoming [OF run]
  have "process_upcoming_events_data epoch_clock (filter is_upcoming ?evs)
          = ((fst (fst ?p), snd (fst ?p)), snd ?p)"
    by (rule conjunct1)
  then have "fst (process_upcoming_events_data epoch_clock (filter is_upcoming ?evs)) = fst ?p"
    by (simp only: fst_conv prod.collapse)
  then have "fst (process_upcoming_events_data epoch_clock
               [scenario_a, scenario_tie \<lparr> status := Some ''PRE-Match'' \<rparr>])
             = ([scenario_a_record, scenario_tie_record], None)"
    by (simp only: fl out)
  with out fl show ?thesis
    by (simp only: simp_thms)
qed

subsection \<open>Malformed events\<close>

lemma process_append:
  "process_upcoming_events_data clk (xs @ zs) =
     (case process_upcoming_events_data clk xs of
        ((as, Some err), c) \<Rightarrow> ((as, Some err), c)
      | ((as, None), c) \<Rightarrow>
          (case process_upcoming_events_data c zs of
             ((bs, st), c2) \<Rightarrow> ((as @ bs, st), c2)))"
  by (induction xs arbitrary: clk) (auto split: prod.splits sum.splits option.splits)

lemma record_outcome_structural:
  "record_outcome b best oc = Inl err \<Longrightarrow> structural_error err"
  by (auto simp: record_outcome_def structural_error_def split: option.splits if_splits)

lemma outcomes_loop_structural:
  "outcomes_loop b best ocs = Inl err \<Longrightarrow> structural_error err"
  by (induction ocs arbitrary: best)
     (auto split: sum.splits dest: record_outcome_structural)

lemma first_market_outcomes_structural:
  "first_market_outcomes bk = Inl err \<Longrightarrow> structural_error err"
  by (auto simp: first_market_outcomes_def structural_error_def
      split: option.splits list.splits)

lemma first_market_outcomes_malformed:
  "malformed_bookmaker bk \<Longrightarrow> \<exists>err. first_market_outcomes bk = Inl err"
  by (auto simp: first_market_outcomes_def malformed_bookmaker_def
      split: option.splits list.splits)

lemma bookmakers_loop_malformed:
  "list_ex malformed_bookmaker bks \<Longrightarrow>
     \<exists>err. bookmakers_loop best bks = Inl err \<and> structural_error err"
proof (induction bks arbitrary: best)
  case Nil
  then show ?case by simp
next
  case (Cons bk bks)
  show ?case
  proof (cases "first_market_outcomes bk")
    case (Inl err)
    with first_market_outcomes_structural [OF Inl] show ?thesis by simp
  next
    case (Inr pair)
    obtain b ocs where pair: "pair = (b, ocs)" by (cases pair) auto
    from Inr first_market_outcomes_malformed [of bk] have "\<not> malformed_bookmaker bk"
      by auto
    with Cons.prems have rest: "list_ex malformed_bookmaker bks" by simp
    show ?thesis
    proof (cases "outcomes_loop b best ocs")
      case (Inl err)
      with outcomes_loop_structural [OF Inl] Inr pair show ?thesis by simp
    next
      case (Inr best')
      from Cons.IH [OF rest, of best'] Inr \<open>first_market_outcomes bk = Inr pair\<close> pair
      show ?thesis by simp
    qed
  qed
qed

lemma malformed_event_raises:
  assumes "is_upcoming ev" and "malformed ev"
  shows "\<exists>err. structural_error err
       \<and> (\<forall>clk. process_event clk ev = (Inl err, clk))
       \<and> (\<forall>clk pre post.
             snd (fst (process_upcoming_events_data clk (pre @ ev # post))) \<noteq> None
           \<and> (snd (fst (process_upcoming_events_data clk pre)) = None \<longrightarrow>
                fst (process_upcoming_events_data clk (pre @ ev # post))
                  = (fst (fst (process_upcoming_events_data clk pre)), Some err)))"
proof -
  from assms(1) obtain start where start: "commence_time ev = Some start"
    by (auto simp: is_upcoming_def Let_def)
  have "\<exists>err. structural_error err \<and> (\<forall>clk. process_event clk ev = (Inl err, clk))"
  proof (cases "bookmakers ev")
    case None
    with start show ?thesis
      by (auto simp: process_event_def structural_error_def)
  next
    case (Some bks)
    with assms(2) have "list_ex malformed_bookmaker bks"
      by (simp add: malformed_def)
    from bookmakers_loop_malformed [OF this, of "[]"] obtain err
      where "bookmakers_loop [] bks = Inl err" "structural_error err" by blast
    with start Some show ?thesis
      by (auto simp: process_event_def)
  qed
  then obtain err where err: "structural_error err"
    and pe: "\<And>clk. process_event clk ev = (Inl err, clk)" by blast
  have one: "process_upcoming_events_data c (ev # post) = (([], Some err), c)" for c post
    using assms(1) pe [of c] by simp
  have "snd (fst (process_upcoming_events_data clk (pre @ ev # post))) \<noteq> None
      \<and> (snd (fst (process_upcoming_events_data clk pre)) = None \<longrightarrow>
            fst (process_upcoming_events_data clk (pre @ ev # post))
              = (fst (fst (process_upcoming_events_data clk pre)), Some err))"
    for clk pre post
    by (simp add: process_append [of clk pre "ev # post"] one
        del: process_upcoming_events_data.simps split: prod.splits option.splits)
  with err pe show ?thesis by blast
qed

lemma malformed_event_ends_stream:
  assumes "is_upcoming ev" and "malformed ev"
    and "fst (get_upcoming_events_data net clk key sport region ''decimal'') = Inr evs"
    and "ev \<in> set evs"
  shows "snd (sports_loop net key region cutoff clk (sport # sports)) \<noteq> None"
proof -
  let ?g = "get_upcoming_events_data net clk key sport region ''decimal''"
  have g: "?g = (Inr evs, snd ?g)"
    using assms(3) by (simp add: prod_eq_iff)
  from assms(4) obtain pre post where evs: "evs = pre @ ev # post"
    by (auto dest: split_list)
  from malformed_event_raises [OF assms(1,2)]
  have "snd (fst (process_upcoming_events_data (snd ?g) evs)) \<noteq> None"
    unfolding evs by blast
  then show ?thesis
    apply (subst sports_loop_Cons)
    apply (subst g)
    apply (auto split: prod.splits option.splits)
    done
qed

text \<open>
  Claim C5. An event that passes the filter and is malformed (no \<open>bookmakers\<close> field, a
  bookmaker without markets or with an empty list of markets, or a first market without
  \<open>outcomes\<close>) raises a structural-access failure, and the failure ends the iteration over
  the events: the records of the earlier events are yielded, then the exception is
  raised, and no later event is processed. In the stream of opportunities a sport whose
  events include such an event ends the stream with an exception.
\<close>

theorem malformed_event_aborts:
  assumes "is_upcoming ev" and "malformed ev"
  shows "(\<exists>err. structural_error err
          \<and> (\<forall>clk. process_event clk ev = (Inl err, clk))
          \<and> (\<forall>clk pre post.
                snd (fst (process_upcoming_events_data clk (pre @ ev # post))) \<noteq> None
              \<and> (snd (fst (process_upcoming_events_data clk pre)) = None \<longrightarrow>
                   fst (process_upcoming_events_data clk (pre @ ev # post))
                     = (fst (fst (process_upcoming_events_data clk pre)), Some err))))
       \<and> (\<forall>net clk key sport region cutoff sports evs.
             fst (get_upcoming_events_data net clk key sport region ''decimal'') = Inr evs
             \<and> ev \<in> set evs \<longrightarrow>
             snd (sports_loop net key region cutoff clk (sport # sports)) \<noteq> None)"
  using malformed_event_raises [OF assms] malformed_event_ends_stream [OF assms]
  by blast

theorem malformed_event_aborts_witness:
  "is_upcoming missing_outcomes_event \<and> malformed missing_outcomes_event
   \<and> fst (process_upcoming_events_data epoch_clock
            [scenario_a, missing_outcomes_event, scenario_tie])
       = ([scenario_a_record], Some (KeyError ''outcomes''))"
proof -
  have h1: "is_upcoming missing_outcomes_event" by code_simp
  have h2: "malformed missing_outcomes_event" by code_simp
  have pre: "fst (process_upcoming_events_data epoch_clock [scenario_a])
               = ([scenario_a_record], None)"
    by code_simp
  have pe: "fst (process_event epoch_clock missing_outcomes_event) = Inl (KeyError ''outcomes'')"
    by code_simp
  from malformed_event_aborts [OF h1 h2] obtain err where
    a: "\<forall>clk. process_event clk missing_outcomes_event = (Inl err, clk)" and
    b: "\<forall>clk pre post.
          snd (fst (process_upcoming_events_data clk (pre @ missing_outcomes_event # post))) \<noteq> None
        \<and> (snd (fst (process_upcoming_events_data clk pre)) = None \<longrightarrow>
             fst (process_upcoming_events_data clk (pre @ missing_outcomes_event # post))
               = (fst (fst (process_upcoming_events_data clk pre)), Some err))"
    by blast
  from a pe have err: "err = KeyError ''outcomes''"
    by (metis fst_conv sum.inject(1))
  from b [rule_format, of epoch_clock "[scenario_a]" "[scenario_tie]"] pre
  have "fst (process_upcoming_events_data epoch_clock
               ([scenario_a] @ missing_outcomes_event # [scenario_tie]))
          = ([scenario_a_record], Some err)"
    by (simp only: fst_conv snd_conv simp_thms)
  with h1 h2 err show ?thesis by simp
qed

text \<open>
  Claim C6, as stated, fails: an event whose \<open>bookmakers\<close> list is present and empty passes
  the filter and is processed without any failure into a record.
\<close>

theorem empty_bookmakers_counterexample:
  "is_upcoming no_bookmakers_event
   \<and> bookmakers no_bookmakers_event = Some []
   \<and> fst (process_upcoming_events_data epoch_clock [no_bookmakers_event])
       = ([no_bookmakers_record], None)"
  by code_simp

text \<open>
  Claim C6, amended. An event that passes the filter with a present, empty \<open>bookmakers\<close>
  list does not fail in the aggregation: the only exceptions it can raise are the missing
  keys \<open>home_team\<close>, \<open>away_team\<close> and \<open>sport_key\<close>, and when these fields are present a record
  is yielded, with an empty \<open>best_outcome_odds\<close> and a total of \<open>0\<close>, which the test
  \<open>0 < total\<close> of the evaluator rejects for every cutoff.
\<close>

theorem empty_bookmakers_not_rejected:
  assumes "is_upcoming ev" and "bookmakers ev = Some []"
  shows "(\<forall>err. fst (process_event clk ev) = Inl err \<longrightarrow>
            err = KeyError ''home_team'' \<or> err = KeyError ''away_team''
          \<or> err = KeyError ''sport_key'')
       \<and> (\<forall>r. fst (process_event clk ev) = Inr r \<longrightarrow>
            best_outcome_odds r = [] \<and> total_implied_odds r = 0 \<and> \<not> is_arbitrage cutoff r)
       \<and> (home_team ev \<noteq> None \<and> away_team ev \<noteq> None \<and> sport_key ev \<noteq> None \<longrightarrow>
            (\<exists>r. fst (process_event clk ev) = Inr r))"
proof -
  from assms(1) obtain start where "commence_time ev = Some start"
    by (auto simp: is_upcoming_def Let_def)
  with assms(2) show ?thesis
    by (auto simp: process_event_def time_time_def is_arbitrage_def split: option.splits)
qed

theorem empty_bookmakers_not_rejected_witness:
  "is_upcoming no_bookmakers_event \<and> bookmakers no_bookmakers_event = Some []
   \<and> fst (process_event epoch_clock no_bookmakers_event) = Inr no_bookmakers_record
   \<and> best_outcome_odds no_bookmakers_record = []
   \<and> total_implied_odds no_bookmakers_record = 0
   \<and> \<not> is_arbitrage 0 no_bookmakers_record"
proof -
  have h1: "is_upcoming no_bookmakers_event" by code_simp
  have h2: "bookmakers no_bookmakers_event = Some []" by code_simp
  have pe: "fst (process_event epoch_clock no_bookmakers_event) = Inr no_bookmakers_record"
    by code_simp
  from empty_bookmakers_not_rejected [OF h1 h2, of epoch_clock 0] pe h1 h2
  show ?thesis by simp
qed

subsection \<open>Two runs on the same events\<close>

lemma process_event_without_hours:
  "map_sum id without_hours (fst (process_event clk1 ev))
     = map_sum id without_hours (fst (process_event clk2 ev))"
  by (simp add: process_event_def time_time_def without_hours_def
      split: option.splits sum.splits)

lemma process_without_hours:
  "map without_hours (fst (fst (process_upcoming_events_data clk1 evs)))
     = map without_hours (fst (fst (process_upcoming_events_data clk2 evs)))
   \<and> snd (fst (process_upcoming_events_data clk1 evs))
     = snd (fst (process_upcoming_events_data clk2 evs))"
proof (induction evs arbitrary: clk1 clk2)
  case Nil
  then show ?case by simp
next
  case (Cons ev evs)
  show ?case
  proof (cases "is_upcoming ev")
    case False
    with Cons.IH [of clk1 clk2] show ?thesis by simp
  next
    case True
    obtain x1 c1 where p1: "process_event clk1 ev = (x1, c1)" by (cases "process_event clk1 ev")
    obtain x2 c2 where p2: "process_event clk2 ev = (x2, c2)" by (cases "process_event clk2 ev")
    from process_event_without_hours [of clk1 ev clk2] p1 p2
    have eq: "map_sum id without_hours x1 = map_sum id without_hours x2" by simp
    show ?thesis
    proof (cases x1)
      case (Inl err)
      with eq have "x2 = Inl err" by (cases x2) auto
      with Inl True p1 p2 show ?thesis by simp
    next
      case (Inr r1)
      with eq obtain r2 where x2: "x2 = Inr r2" and r: "without_hours r1 = without_hours r2"
        by (cases x2) auto
      from Cons.IH [of c1 c2] Inr x2 r True p1 p2 show ?thesis
        by (auto split: prod.splits)
    qed
  qed
qed

lemma is_arbitrage_without_hours:
  "is_arbitrage cutoff (without_hours r) = is_arbitrage cutoff r"
  by (simp add: is_arbitrage_def without_hours_def)

lemma filter_without_hours:
  "map without_hours (filter (is_arbitrage cutoff) rs)
     = filter (is_arbitrage cutoff) (map without_hours rs)"
  by (induction rs) (simp_all add: is_arbitrage_without_hours)

text \<open>
  Claim C9, as stated, fails: \<open>hours_to_start\<close> is computed from the clock, so two runs on
  the same events and the same cutoff at different times yield records that differ in
  this field.
\<close>

theorem two_runs_differ_in_hours:
  "filter (is_arbitrage (2 / 100))
       (fst (fst (process_upcoming_events_data epoch_clock [scenario_a])))
     \<noteq> filter (is_arbitrage (2 / 100))
       (fst (fst (process_upcoming_events_data hour_later_clock [scenario_a])))
   \<and> map hours_to_start (filter (is_arbitrage (2 / 100))
       (fst (fst (process_upcoming_events_data epoch_clock [scenario_a])))) = [2]
   \<and> map hours_to_start (filter (is_arbitrage (2 / 100))
       (fst (fst (process_upcoming_events_data hour_later_clock [scenario_a])))) = [1]"
  by code_simp

text \<open>
  Claim C9, amended. For the same events and the same cutoff, two runs yield the same
  records in the same order up to the field \<open>hours_to_start\<close>, and end with the same
  exception if any; \<open>hours_to_start\<close> of the \<open>i\<close>-th record of a run is
  \<open>(match_start_time - now) / 3600\<close> for the \<open>i\<close>-th reading \<open>now\<close> of the clock in that run.
\<close>

theorem runs_agree_except_hours:
  "map without_hours (filter (is_arbitrage cutoff)
       (fst (fst (process_upcoming_events_data clk1 evs))))
     = map without_hours (filter (is_arbitrage cutoff)
       (fst (fst (process_upcoming_events_data clk2 evs))))
   \<and> snd (fst (process_upcoming_events_data clk1 evs))
     = snd (fst (process_upcoming_events_data clk2 evs))
   \<and> (\<forall>i<length (fst (fst (process_upcoming_events_data clk1 evs))).
         hours_to_start (fst (fst (process_upcoming_events_data clk1 evs)) ! i)
           = (real_of_int (match_start_time (fst (fst (process_upcoming_events_data clk1 evs)) ! i))
               - clk1 i) / 3600)"
proof -
  let ?p = "process_upcoming_events_data clk1 evs"
  have a: "map without_hours (filter (is_arbitrage cutoff)
             (fst (fst (process_upcoming_events_data clk1 evs))))
           = map without_hours (filter (is_arbitrage cutoff)
             (fst (fst (process_upcoming_events_data clk2 evs))))"
    using process_without_hours [of clk1 evs clk2] by (simp add: filter_without_hours)
  have run: "process_upcoming_events_data clk1 (filter is_upcoming evs)
               = ((fst (fst ?p), snd (fst ?p)), snd ?p)"
    using process_filter [of clk1 evs] by simp
  have "\<forall>ev\<in>set (filter is_upcoming evs). is_upcoming ev" by simp
  from process_passing [OF this run]
  have made: "\<forall>i<length (fst (fst ?p)).
                fst (process_event (shift i clk1) (filter is_upcoming evs ! i))
                  = Inr (fst (fst ?p) ! i)"
    by blast
  have "hours_to_start (fst (fst ?p) ! i)
          = (real_of_int (match_start_time (fst (fst ?p) ! i)) - clk1 i) / 3600"
    if "i < length (fst (fst ?p))" for i
  proof -
    from made that
    have "fst (process_event (shift i clk1) (filter is_upcoming evs ! i)) = Inr (fst (fst ?p) ! i)"
      by blast
    from process_event_InrD [OF this] show ?thesis
      by (auto simp: shift_def)
  qed
  with a process_without_hours [of clk1 evs clk2] show ?thesis by blast
qed

theorem runs_agree_except_hours_witness:
  "map without_hours (filter (is_arbitrage (2 / 100))
       (fst (fst (process_upcoming_events_data epoch_clock [scenario_a]))))
     = map without_hours (filter (is_arbitrage (2 / 100))
       (fst (fst (process_upcoming_events_data hour_later_clock [scenario_a]))))
   \<and> 0 < length (fst (fst (process_upcoming_events_data hour_later_clock [scenario_a])))
   \<and> hours_to_start (fst (fst (process_upcoming_events_data hour_later_clock [scenario_a])) ! 0)
       = (real_of_int (match_start_time
            (fst (fst (process_upcoming_events_data hour_later_clock [scenario_a])) ! 0))
           - hour_later_clock 0) / 3600"
proof -
  have h: "0 < length (fst (fst (process_upcoming_events_data hour_later_clock [scenario_a])))"
    by code_simp
  from runs_agree_except_hours [of "2 / 100" hour_later_clock "[scenario_a]" epoch_clock] h
  show ?thesis by metis
qed

subsection \<open>The threshold test\<close>

lemma sports_loop_all_arbitrage:
  "\<forall>x\<in>set (fst (sports_loop net key region cutoff clk sports)). is_arbitrage cutoff x"
proof (induction sports arbitrary: clk)
  case Nil
  show ?case by simp
next
  case (Cons s sports)
  obtain x c1 where g: "get_upcoming_events_data net clk key s region ''decimal'' = (x, c1)"
    by (cases "get_upcoming_events_data net clk key s region ''decimal''")
  show ?case
  proof (cases x)
    case (Inl err)
    with g show ?thesis by (simp only: sports_loop_Cons) simp
  next
    case (Inr evs)
    obtain results stop c2 where
      p: "process_upcoming_events_data c1 evs = ((results, stop), c2)"
      by (metis prod.exhaust)
    show ?thesis
    proof (cases stop)
      case (Some err)
      with g Inr p show ?thesis by (simp only: sports_loop_Cons) simp
    next
      case None
      from Cons.IH [of c2] g Inr p None show ?thesis
        by (simp only: sports_loop_Cons) (auto split: prod.splits)
    qed
  qed
qed

text \<open>
  Claim C1. For every cutoff, the opportunities emitted for a sport are exactly the
  records of its events whose \<open>total_implied_odds\<close> is strictly greater than \<open>0\<close> and
  strictly less than \<open>1 - cutoff\<close>, in the order of the records; a record whose total
  equals \<open>1 - cutoff\<close> is not emitted, for this sport or anywhere in the stream.
\<close>

theorem evaluator_emits_iff:
  assumes "fst (get_upcoming_events_data net clk key sport region ''decimal'') = Inr evs"
  shows "fst (sports_loop net key region cutoff clk [sport])
           = filter (\<lambda>x. 0 < total_implied_odds x \<and> total_implied_odds x < 1 - cutoff)
               (fst (fst (process_upcoming_events_data
                  (snd (get_upcoming_events_data net clk key sport region ''decimal'')) evs)))
       \<and> (\<forall>x. x \<in> set (fst (sports_loop net key region cutoff clk [sport])) \<longleftrightarrow>
             x \<in> set (fst (fst (process_upcoming_events_data
                  (snd (get_upcoming_events_data net clk key sport region ''decimal'')) evs)))
           \<and> 0 < total_implied_odds x \<and> total_implied_odds x < 1 - cutoff)
       \<and> (\<forall>x sports. total_implied_odds x = 1 - cutoff \<longrightarrow>
             x \<notin> set (fst (sports_loop net key region cutoff clk sports)))"
proof -
  let ?g = "get_upcoming_events_data net clk key sport region ''decimal''"
  let ?results = "fst (fst (process_upcoming_events_data (snd ?g) evs))"
  have g: "?g = (Inr evs, snd ?g)"
    using assms by (simp add: prod_eq_iff)
  have p: "is_arbitrage cutoff = (\<lambda>x. 0 < total_implied_odds x \<and> total_implied_odds x < 1 - cutoff)"
    by (simp add: fun_eq_iff is_arbitrage_def)
  have a: "fst (sports_loop net key region cutoff clk [sport])
             = filter (\<lambda>x. 0 < total_implied_odds x \<and> total_implied_odds x < 1 - cutoff) ?results"
    unfolding p [symmetric]
    apply (subst sports_loop_Cons)
    apply (subst g)
    apply (simp split: prod.splits option.splits)
    done
  have b: "x \<notin> set (fst (sports_loop net key region cutoff clk sports))"
    if "total_implied_odds x = 1 - cutoff" for x sports
    using sports_loop_all_arbitrage [of net key region cutoff clk sports] that
    by (auto simp: is_arbitrage_def)
  show ?thesis
    unfolding a using b by auto
qed

theorem evaluator_emits_iff_witness:
  "fst (get_upcoming_events_data demo_network epoch_clock ''k'' ''soccer'' ''eu'' ''decimal'')
     = Inr [scenario_a, scenario_c]
   \<and> scenario_c_record \<in> set (fst (fst (process_upcoming_events_data
        (snd (get_upcoming_events_data demo_network epoch_clock ''k'' ''soccer'' ''eu'' ''decimal''))
        [scenario_a, scenario_c])))
   \<and> total_implied_odds scenario_c_record = 1 - 5 / 100
   \<and> scenario_c_record
        \<notin> set (fst (sports_loop demo_network ''k'' ''eu'' (5 / 100) epoch_clock [''soccer'']))
   \<and> scenario_c_record
        \<in> set (fst (sports_loop demo_network ''k'' ''eu'' (2 / 100) epoch_clock [''soccer'']))"
proof -
  have h: "fst (get_upcoming_events_data demo_network epoch_clock ''k'' ''soccer'' ''eu''
             ''decimal'') = Inr [scenario_a, scenario_c]"
    by code_simp
  have m: "scenario_c_record \<in> set (fst (fst (process_upcoming_events_data
        (snd (get_upcoming_events_data demo_network epoch_clock ''k'' ''soccer'' ''eu'' ''decimal''))
        [scenario_a, scenario_c])))"
    by code_simp
  have t: "total_implied_odds scenario_c_record = 1 - 5 / 100"
    by code_simp
  have t2: "0 < total_implied_odds scenario_c_record
            \<and> total_implied_odds scenario_c_record < 1 - 2 / 100"
    by code_simp
  from evaluator_emits_iff [OF h, of "5 / 100"] t
  have out: "scenario_c_record
        \<notin> set (fst (sports_loop demo_network ''k'' ''eu'' (5 / 100) epoch_clock [''soccer'']))"
    by blast
  from evaluator_emits_iff [OF h, of "2 / 100"] m t2
  have "scenario_c_record
        \<in> set (fst (sports_loop demo_network ''k'' ''eu'' (2 / 100) epoch_clock [''soccer'']))"
    by blast
  with h m t out show ?thesis by blast
qed

subsection \<open>Errors of the fetch boundary\<close>





subsection \<open>A sport that answers with an object\<close>





end
